theory Spec2Isabelle
  imports Main "HOL-Library.AList" "HOL-Library.Multiset"
begin

section \<open>Python values shared by the functions of loader.py\<close>

text \<open>
  Strings are \<^typ>\<open>string\<close>; a character stands for a code point below 256, which covers
  every character loader.py inspects (\<open>/ % * ( ) | -\<close>, the digits, \<open>. ? !\<close>).
  Exceptions are values of \<open>error\<close>; a function that can raise returns \<open>error + 'a\<close>.
  \<open>HelperError\<close> stands for whatever the helper \<open>fix_coref_spans\<close> of \<open>utils\<close> may raise.
\<close>

datatype error = IndexError | UnboundLocalError | AttributeError | HelperError

text \<open>
  A Python \<open>dict\<close> keeps its keys in insertion order, and storing under a key that is
  already there replaces the value in place: that is \<open>AList.update\<close>. A dict
  comprehension stores its pairs one after the other into an empty dict.
\<close>

definition dict_comprehension :: "('k \<times> 'v) list \<Rightarrow> ('k \<times> 'v) list" where
  "dict_comprehension kvs = fold (\<lambda>(k, v) d. AList.update k v d) kvs []"

text \<open>\<open>xs[k]\<close>: a negative index counts from the end, anything outside raises.\<close>

definition py_getitem :: "'a list \<Rightarrow> int \<Rightarrow> error + 'a" where
  "py_getitem xs k =
     (if 0 \<le> k then (if nat k < length xs then Inr (xs ! nat k) else Inl IndexError)
      else (if nat (- k) \<le> length xs then Inr (xs ! (length xs - nat (- k))) else Inl IndexError))"

text \<open>\<open>xs[a:b]\<close> for bounds that are not negative, and \<open>xs[:k]\<close> for \<open>k\<close> an int or \<open>None\<close>.\<close>

definition py_slice :: "'a list \<Rightarrow> nat \<Rightarrow> nat \<Rightarrow> 'a list" where
  "py_slice xs a b = drop a (take b xs)"

definition py_slice_to :: "'a list \<Rightarrow> int option \<Rightarrow> 'a list" where
  "py_slice_to xs k =
     (case k of None \<Rightarrow> xs
      | Some n \<Rightarrow> if 0 \<le> n then take (nat n) xs else take (length xs - nat (- n)) xs)"

section \<open>LazyVectors\<close>

text \<open>
  The table after \<open>set_vocab\<close>: the working vocabulary \<open>self.vocab\<close> and the two dicts
  \<open>self._stoi\<close>, \<open>self._itos\<close>. The pretrained vectors are external: \<open>in_loader\<close> is the
  test \<open>v in self.loader.stoi\<close>.
\<close>

record lazy_vectors =
  skim :: "int option"
  vocab :: "string list"
  priv_stoi :: "(string \<times> int) list"
  priv_itos :: "(int \<times> string) list"

definition unk_idx :: int where
  "unk_idx = 1"

definition set_dicts :: "lazy_vectors \<Rightarrow> lazy_vectors" where
  "set_dicts lv =
     (let d = dict_comprehension (map (\<lambda>(i, s). (s, int i)) (enumerate 0 (vocab lv)))
      in lv\<lparr>priv_stoi := d, priv_itos := dict_comprehension (map (\<lambda>(s, i). (i, s)) d)\<rparr>)"

definition set_vocab :: "(string \<Rightarrow> bool) \<Rightarrow> string list \<Rightarrow> lazy_vectors \<Rightarrow> lazy_vectors" where
  "set_vocab in_loader v lv =
     set_dicts (lv\<lparr>vocab := py_slice_to (filter in_loader v) (skim lv)\<rparr>)"

text \<open>\<open>idx + 2 if idx else self.unk_idx\<close>: both \<open>None\<close> and the integer 0 are falsy.\<close>

definition stoi :: "lazy_vectors \<Rightarrow> string \<Rightarrow> int" where
  "stoi lv s =
     (case map_of (priv_stoi lv) s of
        None \<Rightarrow> unk_idx
      | Some idx \<Rightarrow> if idx \<noteq> 0 then idx + 2 else unk_idx)"

text \<open>\<open>token if token else 'UNK'\<close>: both \<open>None\<close> and the empty string are falsy.\<close>

definition itos :: "lazy_vectors \<Rightarrow> int \<Rightarrow> string" where
  "itos lv i =
     (case map_of (priv_itos lv) i of
        None \<Rightarrow> ''UNK''
      | Some token \<Rightarrow> if token \<noteq> [] then token else ''UNK'')"

text \<open>A table built over three tokens, none filtered out, no cap.\<close>

definition example_table :: lazy_vectors where
  "example_table =
     set_vocab (\<lambda>_. True) [''the'', ''cat'', ''sat'']
       \<lparr>skim = None, vocab = [], priv_stoi = [], priv_itos = []\<rparr>"

section \<open>clean_token\<close>

definition NORMALIZE_DICT :: "(string \<times> string) list" where
  "NORMALIZE_DICT =
     [(''/.'', ''.''), (''/?'', ''?''),
      (''-LRB-'', ''(''), (''-RRB-'', '')''),
      (''-LCB-'', ''{''), (''-RCB-'', ''}''),
      (''-LSB-'', ''[''), (''-RSB-'', '']'')]"

definition REMOVED_CHAR :: "string list" where
  "REMOVED_CHAR = [''/'', ''%'', ''*'']"

text \<open>
  \<open>s.replace(old, u'')\<close>: every occurrence of \<open>old\<close>, found from the left and not
  overlapping, is dropped. An empty \<open>old\<close> leaves \<open>s\<close> as it is.
\<close>

fun str_replace_empty :: "string \<Rightarrow> string \<Rightarrow> string" where
  "str_replace_empty old [] = []"
| "str_replace_empty old (c # cs) =
     (if old \<noteq> [] \<and> take (length old) (c # cs) = old
      then str_replace_empty old (drop (length old - 1) cs)
      else c # str_replace_empty old cs)"

definition clean_token :: "string \<Rightarrow> string" where
  "clean_token token =
     (let cleaned1 = (case map_of NORMALIZE_DICT token of Some r \<Rightarrow> r | None \<Rightarrow> token);
          cleaned2 = (if cleaned1 \<notin> set REMOVED_CHAR
                      then fold str_replace_empty REMOVED_CHAR cleaned1
                      else cleaned1)
      in if length cleaned2 = 0 then '','' else cleaned2)"

section \<open>Document\<close>

text \<open>
  A coreference record is the dict \<open>{'label', 'start', 'end', 'span'}\<close>; what the helper
  \<open>fix_coref_spans\<close> stores under \<open>'span'\<close> is left open as the type \<open>'s\<close>.
\<close>

record 's coref =
  label :: string
  start :: nat
  end_idx :: "nat option"
  span :: "'s option"

record 's document =
  tokens :: "string list"
  corefs :: "'s coref list"
  speakers :: "string list"
  genre :: string

text \<open>
  \<open>Document.truncate\<close>, here \<open>doc_truncate\<close>, returns either \<open>self\<close>, the very object it was called on, or a new
  \<open>Document\<close>. The value drawn by \<open>random.sample(range(MAX, len(sentences)), 1)[0]\<close> is the
  argument \<open>i\<close> (\<open>MAX'\<close> is the source's \<open>MAX\<close>); the source only draws it when \<open>len(sentences) > MAX\<close>, and then
  \<open>MAX \<le> i < len(sentences)\<close>. The deep copies are equal values.
\<close>

datatype 's truncated = Self | Fresh "'s document"

definition sentence_ends :: "string list \<Rightarrow> nat list" where
  "sentence_ends toks =
     map fst (filter (\<lambda>(idx, token). token \<in> set [''.'', ''?'', ''!'']) (enumerate 0 toks))"

definition doc_truncate :: "'s document \<Rightarrow> int \<Rightarrow> int \<Rightarrow> error + 's truncated" where
  "doc_truncate self MAX' i =
     (let sentences = sentence_ends (tokens self) in
      if int (length sentences) > MAX' then
        (case py_getitem sentences (i - 50) of
           Inl e \<Rightarrow> Inl e
         | Inr a \<Rightarrow>
            (case py_getitem sentences i of
               Inl e \<Rightarrow> Inl e
             | Inr b \<Rightarrow>
                Inr (Fresh \<lparr>tokens = py_slice (tokens self) a b, corefs = corefs self,
                            speakers = speakers self, genre = genre self\<rparr>)))
      else Inr Self)"

section \<open>load_file\<close>

text \<open>\<open>s.split(sep)\<close> for a one-character separator: an empty field is kept.\<close>

fun split_on :: "char \<Rightarrow> string \<Rightarrow> string list" where
  "split_on sep [] = [[]]"
| "split_on sep (c # cs) =
     (if c = sep then [] # split_on sep cs
      else (case split_on sep cs of
              [] \<Rightarrow> [[c]]
            | w # ws \<Rightarrow> (c # w) # ws))"

text \<open>
  \<open>re.match(r"^(\(?)(\d+)(\)?)$", token)\<close>: the three groups, or \<open>None\<close>. Each part of the
  pattern can match in one way only, so the greedy reading is the match if there is one;
  \<open>$\<close> also matches just before a newline that ends the token.
\<close>

definition is_digit :: "char \<Rightarrow> bool" where
  "is_digit c = (c \<in> set ''0123456789'')"

definition re_match :: "string \<Rightarrow> (string \<times> string \<times> string) option" where
  "re_match token =
     (let s = (if token \<noteq> [] \<and> last token = CHR 0x0A then butlast token else token);
          g1 = (if s \<noteq> [] \<and> hd s = CHR ''('' then ''('' else []);
          r = drop (length g1) s;
          g2 = takeWhile is_digit r;
          g3 = dropWhile is_digit r
      in if g2 \<noteq> [] \<and> (g3 = [] \<or> g3 = '')'') then Some (g1, g2, g3) else None)"

text \<open>
  The local variables of \<open>load_file\<close>. \<open>speaker\<close> and the loop variable \<open>i\<close> are unbound
  until their first assignment (\<open>None\<close>), and keep their last value from then on.
\<close>

record 's loader_state =
  l_documents :: "'s document list"
  l_tokens :: "string list"
  l_text :: "string list"
  l_utts_corefs :: "'s coref list"
  l_utts_speakers :: "string list"
  l_corefs :: "'s coref list"
  l_index :: nat
  l_speaker :: "string option"
  l_i :: "nat option"

definition initial_state :: "'s loader_state" where
  "initial_state =
     \<lparr>l_documents = [], l_tokens = [], l_text = [], l_utts_corefs = [], l_utts_speakers = [],
      l_corefs = [], l_index = 0, l_speaker = None, l_i = None\<rparr>"

text \<open>
  \<open>for i in range(len(corefs)-1, -1, -1): if ...: break\<close>. The last argument is the
  binding of \<open>i\<close> on entry; the result is its binding after the loop: the index of the
  \<open>break\<close>, else the last value of the range, else (an empty range) what it was.
\<close>

fun scan_back :: "'s coref list \<Rightarrow> string \<Rightarrow> nat list \<Rightarrow> nat option \<Rightarrow> nat option" where
  "scan_back cs lab [] i = i"
| "scan_back cs lab (j # js) i =
     (if label (cs ! j) = lab \<and> end_idx (cs ! j) = None then Some j
      else scan_back cs lab js (Some j))"

text \<open>The loop, then \<open>corefs[i]['end'] = index\<close>.\<close>

definition close_mention ::
  "'s coref list \<Rightarrow> string \<Rightarrow> nat \<Rightarrow> nat option \<Rightarrow> error + ('s coref list \<times> nat option)" where
  "close_mention cs lab idx i =
     (case scan_back cs lab (rev [0..<length cs]) i of
        None \<Rightarrow> Inl UnboundLocalError
      | Some k \<Rightarrow>
          if k < length cs then Inr (cs[k := (cs ! k)\<lparr>end_idx := Some idx\<rparr>], Some k)
          else Inl IndexError)"

text \<open>The body of \<open>for token in coref_expr\<close>, on the pair \<open>(corefs, i)\<close>.\<close>

definition coref_token ::
  "string \<Rightarrow> nat \<Rightarrow> 's coref list \<times> nat option \<Rightarrow> error + ('s coref list \<times> nat option)" where
  "coref_token token idx st =
     (case re_match token of
        None \<Rightarrow> Inl AttributeError
      | Some (g1, lab, g3) \<Rightarrow>
          (let cs = (if g1 = ''(''
                     then fst st @ [\<lparr>label = lab, start = idx, end_idx = None, span = None\<rparr>]
                     else fst st)
           in if g3 = '')'' then close_mention cs lab idx (snd st) else Inr (cs, snd st)))"

fun coref_tokens ::
  "string list \<Rightarrow> nat \<Rightarrow> 's coref list \<times> nat option \<Rightarrow> error + ('s coref list \<times> nat option)" where
  "coref_tokens [] idx st = Inr st"
| "coref_tokens (token # rest) idx st =
     (case coref_token token idx st of
        Inl e \<Rightarrow> Inl e
      | Inr st' \<Rightarrow> coref_tokens rest idx st')"

text \<open>
  One iteration of \<open>for line in f\<close>, on \<open>cols = line.split()\<close>. The helper
  \<open>fix_coref_spans\<close> (module \<open>utils\<close>) is the parameter \<open>fix\<close>.
\<close>

definition process_line ::
  "('s document \<Rightarrow> error + 's document) \<Rightarrow> string \<Rightarrow> string list \<Rightarrow> 's loader_state
     \<Rightarrow> error + 's loader_state" where
  "process_line fix g cols s =
     (if length cols = 0 then
        (if l_text s \<noteq> [] then
           (case l_speaker s of
              None \<Rightarrow> Inl UnboundLocalError
            | Some speaker \<Rightarrow>
                Inr (s\<lparr>l_tokens := l_tokens s @ l_text s,
                       l_utts_corefs := l_utts_corefs s @ l_corefs s,
                       l_utts_speakers := l_utts_speakers s @ replicate (length (l_text s)) speaker,
                       l_text := [], l_corefs := []\<rparr>))
         else Inr s)
      else if length cols = 2 then
        (case fix \<lparr>tokens = l_tokens s, corefs = l_utts_corefs s,
                   speakers = l_utts_speakers s, genre = g\<rparr> of
           Inl e \<Rightarrow> Inl e
         | Inr doc \<Rightarrow>
             Inr (s\<lparr>l_documents := l_documents s @ [doc],
                    l_tokens := [], l_text := [], l_utts_corefs := [], l_utts_speakers := [],
                    l_index := 0\<rparr>))
      else if length cols > 7 then
        (if length cols \<le> 9 then Inl IndexError
         else
           (case (if last cols \<noteq> ''-''
                  then coref_tokens (split_on (CHR ''|'') (last cols)) (l_index s) (l_corefs s, l_i s)
                  else Inr (l_corefs s, l_i s)) of
              Inl e \<Rightarrow> Inl e
            | Inr st \<Rightarrow>
                Inr (s\<lparr>l_text := l_text s @ [clean_token (cols ! 3)],
                       l_speaker := Some (cols ! 9),
                       l_corefs := fst st, l_i := snd st,
                       l_index := l_index s + 1\<rparr>)))
      else Inr s)"

fun process_lines ::
  "('s document \<Rightarrow> error + 's document) \<Rightarrow> string \<Rightarrow> string list list \<Rightarrow> 's loader_state
     \<Rightarrow> error + 's loader_state" where
  "process_lines fix g [] s = Inr s"
| "process_lines fix g (cols # rest) s =
     (case process_line fix g cols s of
        Inl e \<Rightarrow> Inl e
      | Inr s' \<Rightarrow> process_lines fix g rest s')"

text \<open>
  The file is given as the fields of its lines, \<open>line.split()\<close> for each line in order:
  a field is not empty and holds no white space.
\<close>

definition load_file ::
  "('s document \<Rightarrow> error + 's document) \<Rightarrow> string \<Rightarrow> string list list
     \<Rightarrow> error + 's document list" where
  "load_file fix filename lines =
     (case py_getitem (split_on (CHR ''/'') filename) 6 of
        Inl e \<Rightarrow> Inl e
      | Inr g \<Rightarrow>
          (case process_lines fix g lines initial_state of
             Inl e \<Rightarrow> Inl e
           | Inr s \<Rightarrow> Inr (l_documents s)))"

section \<open>Example inputs\<close>

text \<open>A document of 51 two-token sentences: the sentence-ending tokens are at 1, 3, ..., 101.\<close>

definition long_document :: "unit document" where
  "long_document =
     \<lparr>tokens = concat (replicate 51 [''w'', ''.'']),
      corefs = [\<lparr>label = ''3'', start = 0, end_idx = Some 0, span = None\<rparr>],
      speakers = replicate 102 ''A'', genre = ''bc''\<rparr>"

text \<open>
  The slice as the specification words it, with the upper bound included:
  the tokens at positions \<open>a, ..., b\<close>.
\<close>

definition inclusive_slice :: "'a list \<Rightarrow> nat \<Rightarrow> nat \<Rightarrow> 'a list" where
  "inclusive_slice xs a b = map (\<lambda>k. xs ! k) [a..<Suc b]"

text \<open>
  A token record of twelve fields: the word is field 3, the speaker field 9, the
  coreference column the last field. A file path whose segment 6 is the genre \<open>bc\<close>.
\<close>

definition conll_record :: "string \<Rightarrow> string \<Rightarrow> string \<Rightarrow> string list" where
  "conll_record word who coref =
     [''bc/cctv/00/cctv_0001'', ''0'', ''0'', word, ''NN'', ''*'', ''-'', ''-'', ''-'', who,
      ''*'', coref]"

definition end_document :: "string list" where
  "end_document = [''#end'', ''document'']"

definition example_path :: string where
  "example_path = ''../data/train/data/english/annotations/bc/cctv/00/cctv_0001.gold_conll''"


section \<open>Well-formed input and the loop invariant\<close>

text \<open>
  Well-formed input, stated on the file alone. \<open>opens\<close> holds the labels opened and not
  yet closed in the current utterance. A label token must match the pattern; a close
  marker needs an open one of its label and takes one away; a blank line and a two-field
  line must find no label open; a token record needs its field 9.
\<close>

definition balance_token :: "string \<Rightarrow> string list \<Rightarrow> string list option" where
  "balance_token token opens =
     (case re_match token of
        None \<Rightarrow> None
      | Some (g1, lab, g3) \<Rightarrow>
          (let opens1 = (if g1 = ''('' then lab # opens else opens)
           in if g3 = '')''
              then (if lab \<in> set opens1 then Some (remove1 lab opens1) else None)
              else Some opens1))"

fun balance_tokens :: "string list \<Rightarrow> string list \<Rightarrow> string list option" where
  "balance_tokens [] opens = Some opens"
| "balance_tokens (token # rest) opens =
     (case balance_token token opens of
        None \<Rightarrow> None
      | Some opens' \<Rightarrow> balance_tokens rest opens')"

definition balance_line :: "string list \<Rightarrow> string list \<Rightarrow> string list option" where
  "balance_line cols opens =
     (if length cols = 0 \<or> length cols = 2 then (if opens = [] then Some [] else None)
      else if length cols > 7 then
        (if 10 \<le> length cols
         then (if last cols \<noteq> ''-''
               then balance_tokens (split_on (CHR ''|'') (last cols)) opens
               else Some opens)
         else None)
      else Some opens)"

fun well_formed_from :: "string list \<Rightarrow> string list list \<Rightarrow> bool" where
  "well_formed_from opens [] = True"
| "well_formed_from opens (cols # rest) =
     (case balance_line cols opens of
        None \<Rightarrow> False
      | Some opens' \<Rightarrow> well_formed_from opens' rest)"

definition well_formed :: "string list list \<Rightarrow> bool" where
  "well_formed lines = well_formed_from [] lines"

text \<open>
  The two properties of an emitted document: a mention has an end index, not below its
  start index, and there are as many speakers as tokens.
\<close>

definition mention_ok :: "'s coref \<Rightarrow> bool" where
  "mention_ok m = (case end_idx m of None \<Rightarrow> False | Some e \<Rightarrow> start m \<le> e)"

definition document_ok :: "'s document \<Rightarrow> bool" where
  "document_ok d =
     (length (tokens d) = length (speakers d) \<and> (\<forall>m\<in>set (corefs d). mention_ok m))"

text \<open>
  What is assumed of the helper \<open>fix_coref_spans\<close>: when it returns, the tokens, the
  speakers and the label, start and end of every mention are as it received them.
\<close>

definition keeps_mentions :: "('s document \<Rightarrow> error + 's document) \<Rightarrow> bool" where
  "keeps_mentions fix =
     (\<forall>d d'. fix d = Inr d' \<longrightarrow>
        tokens d' = tokens d \<and> speakers d' = speakers d \<and>
        map (\<lambda>m. (label m, start m, end_idx m)) (corefs d') =
        map (\<lambda>m. (label m, start m, end_idx m)) (corefs d))"

text \<open>
  The invariant of the loop, relating the local variables to \<open>opens\<close>: a mention of the
  current utterance starts at or before the running index, a resolved one ends at or
  after its start, and the unresolved ones carry exactly the labels of \<open>opens\<close>.
\<close>

definition pending_ok :: "nat \<Rightarrow> 's coref \<Rightarrow> bool" where
  "pending_ok idx m = (case end_idx m of None \<Rightarrow> start m \<le> idx | Some e \<Rightarrow> start m \<le> e)"

definition open_labels :: "'s coref list \<Rightarrow> string list" where
  "open_labels cs = map label (filter (\<lambda>m. end_idx m = None) cs)"

definition state_ok :: "'s loader_state \<Rightarrow> string list \<Rightarrow> bool" where
  "state_ok s opens =
     (length (l_tokens s) = length (l_utts_speakers s) \<and>
      (\<forall>m\<in>set (l_utts_corefs s). mention_ok m) \<and>
      (\<forall>m\<in>set (l_corefs s). pending_ok (l_index s) m) \<and>
      mset (open_labels (l_corefs s)) = mset opens \<and>
      (\<forall>d\<in>set (l_documents s). document_ok d) \<and>
      (l_text s \<noteq> [] \<longrightarrow> l_speaker s \<noteq> None))"

text \<open>A file of two documents, with a nested and a one-token mention.\<close>

definition example_lines :: "string list list" where
  "example_lines =
     [[''#begin'', ''document'', ''(bc/cctv/00/cctv_0001);'', ''part'', ''000''],
      conll_record ''John'' ''A'' ''(1)'',
      conll_record ''said'' ''A'' ''-'',
      conll_record ''he'' ''A'' ''(2|(1)'',
      conll_record ''left'' ''B'' ''2)'',
      [],
      end_document,
      conll_record ''Bye'' ''C'' ''-'',
      [],
      end_document]"

definition example_documents :: "unit document list" where
  "example_documents =
     [\<lparr>tokens = [''John'', ''said'', ''he'', ''left''],
       corefs = [\<lparr>label = ''1'', start = 0, end_idx = Some 0, span = None\<rparr>,
                 \<lparr>label = ''2'', start = 2, end_idx = Some 3, span = None\<rparr>,
                 \<lparr>label = ''1'', start = 2, end_idx = Some 2, span = None\<rparr>],
       speakers = [''B'', ''B'', ''B'', ''B''], genre = ''bc''\<rparr>,
      \<lparr>tokens = [''Bye''], corefs = [], speakers = [''C''], genre = ''bc''\<rparr>]"

section \<open>Properties of LazyVectors\<close>

lemma fst_dict_comprehension_aux:
  "fst ` set (fold (\<lambda>(k, v) d. AList.update k v d) kvs d0) = fst ` set kvs \<union> fst ` set d0"
  by (induction kvs arbitrary: d0) (auto simp: dom_update split: prod.splits)

lemma fst_dict_comprehension: "fst ` set (dict_comprehension kvs) = fst ` set kvs"
  by (simp add: dict_comprehension_def fst_dict_comprehension_aux)

lemma stoi_keys: "fst ` set (priv_stoi (set_dicts lv)) = set (vocab lv)"
proof -
  have "fst \<circ> (\<lambda>(i, s). (s, int i)) = (snd :: nat \<times> string \<Rightarrow> string)"
    by (simp add: fun_eq_iff)
  then have "map fst (map (\<lambda>(i, s). (s, int i)) (enumerate 0 (vocab lv))) = vocab lv"
    by simp
  then have "set (map fst (map (\<lambda>(i, s). (s, int i)) (enumerate 0 (vocab lv)))) = set (vocab lv)"
    by simp
  then have "fst ` set (map (\<lambda>(i, s). (s, int i)) (enumerate 0 (vocab lv))) = set (vocab lv)"
    by (simp only: set_map)
  then show ?thesis
    by (simp add: set_dicts_def Let_def fst_dict_comprehension)
qed

lemma example_table_eq:
  "example_table =
     \<lparr>skim = None, vocab = [''the'', ''cat'', ''sat''],
      priv_stoi = [(''the'', 0), (''cat'', 1), (''sat'', 2)],
      priv_itos = [(0, ''the''), (1, ''cat''), (2, ''sat'')]\<rparr>"
  by (simp add: example_table_def set_vocab_def set_dicts_def py_slice_to_def
      dict_comprehension_def enumerate_eq_zip upt_rec)

text \<open>
  Over a working vocabulary without repetition (the usual case: the vocabulary of a
  corpus is a set) the two dicts are the vocabulary zipped with its positions.
\<close>

lemma update_fresh: "k \<notin> fst ` set al \<Longrightarrow> AList.update k v al = al @ [(k, v)]"
  by (induction al) auto

lemma fold_update_distinct:
  "distinct (map fst (d0 @ kvs)) \<Longrightarrow>
   fold (\<lambda>(k, v) d. AList.update k v d) kvs d0 = d0 @ kvs"
proof (induction kvs arbitrary: d0)
  case Nil
  then show ?case by simp
next
  case (Cons kv kvs)
  obtain k v where kv: "kv = (k, v)"
    by (cases kv)
  from Cons.prems have fresh: "k \<notin> fst ` set d0"
    by (auto simp: kv)
  from Cons.prems have "distinct (map fst ((d0 @ [(k, v)]) @ kvs))"
    by (auto simp: kv)
  from Cons.IH [OF this] fresh show ?case
    by (simp add: kv update_fresh)
qed

lemma dict_comprehension_distinct:
  "distinct (map fst kvs) \<Longrightarrow> dict_comprehension kvs = kvs"
  using fold_update_distinct [of "[]" kvs] by (simp add: dict_comprehension_def)

lemma swap_enumerate:
  "map (\<lambda>(i, s). (s, int i)) (enumerate n xs) = zip xs (map int [n..<n + length xs])"
proof (induction xs arbitrary: n)
  case Nil
  then show ?case by simp
next
  case (Cons x xs)
  have "[n..<n + length (x # xs)] = n # [Suc n..<n + length (x # xs)]"
    by (rule upt_conv_Cons) simp
  moreover have "n + length (x # xs) = Suc n + length xs"
    by simp
  ultimately have u: "[n..<n + length (x # xs)] = n # [Suc n..<Suc n + length xs]"
    by metis
  have "map (\<lambda>(i, s). (s, int i)) (enumerate n (x # xs)) =
      (x, int n) # zip xs (map int [Suc n..<Suc n + length xs])"
    using Cons.IH [of "Suc n"] by simp
  also have "\<dots> = zip (x # xs) (map int (n # [Suc n..<Suc n + length xs]))"
    by simp
  finally show ?case
    by (simp only: u)
qed

lemma swap_zip: "map (\<lambda>(s, i). (i, s)) (zip xs ys) = zip ys xs"
proof (induction xs arbitrary: ys)
  case Nil
  then show ?case by simp
next
  case (Cons x xs)
  then show ?case by (cases ys) simp_all
qed

lemma set_dicts_distinct:
  assumes "distinct (vocab lv)"
  shows "priv_stoi (set_dicts lv) = zip (vocab lv) (map int [0..<length (vocab lv)])"
    and "priv_itos (set_dicts lv) = zip (map int [0..<length (vocab lv)]) (vocab lv)"
proof -
  let ?n = "length (vocab lv)"
  let ?d = "zip (vocab lv) (map int [0..<?n])"
  let ?b = "zip (map int [0..<?n]) (vocab lv)"
  have "map fst ?d = vocab lv"
    by simp
  with assms have 1: "dict_comprehension ?d = ?d"
    by (intro dict_comprehension_distinct) simp
  have "map fst ?b = map int [0..<?n]"
    by simp
  moreover have "distinct (map int [0..<?n])"
    by (simp add: distinct_map inj_on_def)
  ultimately have 2: "dict_comprehension ?b = ?b"
    by (intro dict_comprehension_distinct) simp
  have st: "priv_stoi (set_dicts lv) = dict_comprehension ?d"
    using swap_enumerate [of 0 "vocab lv"] by (simp add: set_dicts_def Let_def)
  then show "priv_stoi (set_dicts lv) = ?d"
    by (simp only: 1)
  have "priv_itos (set_dicts lv) =
      dict_comprehension (map (\<lambda>(s, i). (i, s)) (priv_stoi (set_dicts lv)))"
    by (simp add: set_dicts_def Let_def)
  also have "\<dots> = dict_comprehension ?b"
    by (simp only: st 1 swap_zip)
  finally show "priv_itos (set_dicts lv) = ?b"
    by (simp only: 2)
qed


lemma stoi_lookup:
  assumes "distinct (vocab lv)" and "k < length (vocab lv)"
  shows "map_of (priv_stoi (set_dicts lv)) (vocab lv ! k) = Some (int k)"
proof -
  have "map_of (zip (vocab lv) (map int [0..<length (vocab lv)])) (vocab lv ! k) =
      Some (map int [0..<length (vocab lv)] ! k)"
    using assms by (intro map_of_zip_nth) auto
  with assms show ?thesis
    by (simp add: set_dicts_distinct)
qed

lemma itos_lookup:
  assumes "distinct (vocab lv)"
  shows "map_of (priv_itos (set_dicts lv)) j =
           (if 0 \<le> j \<and> nat j < length (vocab lv) then Some (vocab lv ! nat j) else None)"
proof (cases "0 \<le> j \<and> nat j < length (vocab lv)")
  case True
  then have j: "map int [0..<length (vocab lv)] ! nat j = j"
    by simp
  have "map_of (zip (map int [0..<length (vocab lv)]) (vocab lv))
          (map int [0..<length (vocab lv)] ! nat j) = Some (vocab lv ! nat j)"
    using True by (intro map_of_zip_nth) (auto simp: distinct_map inj_on_def)
  then have "map_of (zip (map int [0..<length (vocab lv)]) (vocab lv)) j =
      Some (vocab lv ! nat j)"
    by (simp only: j)
  with True show ?thesis
    by (simp add: set_dicts_distinct [OF assms])
next
  case False
  then have "j \<notin> set (map int [0..<length (vocab lv)])"
    by auto
  then have "map_of (zip (map int [0..<length (vocab lv)]) (vocab lv)) j = None"
    by (simp add: map_of_zip_is_None)
  with False show ?thesis
    by (auto simp: set_dicts_distinct [OF assms])
qed

text \<open>
  C7. \<open>stoi\<close> and \<open>itos\<close> never raise: they are plain functions of the table and their
  argument, with no error branch, since \<open>dict.get\<close> returns \<open>None\<close> for a missing key.
  A token that is not in the working vocabulary gets the unknown index 1, and an index
  that is not a key of the backward dict gets the string \<open>UNK\<close>.
\<close>

theorem stoi_itos_total_sentinels:
  "(t \<notin> set (vocab lv) \<longrightarrow> stoi (set_dicts lv) t = 1) \<and>
   (map_of (priv_itos (set_dicts lv)) i = None \<longrightarrow> itos (set_dicts lv) i = ''UNK'')"
proof -
  have "map_of (priv_stoi (set_dicts lv)) t = None" if "t \<notin> set (vocab lv)"
    using that stoi_keys [of lv] by (simp add: map_of_eq_None_iff)
  then show ?thesis
    by (simp add: stoi_def itos_def unk_idx_def)
qed

theorem stoi_itos_total_sentinels_witness:
  "''dog'' \<notin> set (vocab example_table) \<and> stoi example_table ''dog'' = 1 \<and>
   map_of (priv_itos example_table) 7 = None \<and> itos example_table 7 = ''UNK''"
proof -
  have e: "set_dicts example_table = example_table"
    by (simp add: example_table_eq set_dicts_def dict_comprehension_def enumerate_eq_zip upt_rec)
  show ?thesis
    using stoi_itos_total_sentinels [of "''dog''" example_table 7]
    by (simp add: e) (simp add: example_table_eq)
qed

text \<open>
  C2. The claim: every token of the working vocabulary gets its working index plus 2, the
  token at working index 0 included. In the code the token at working index 0 is looked up
  as \<open>idx = 0\<close>, which \<open>idx + 2 if idx else self.unk_idx\<close> takes for a miss: \<open>stoi\<close> gives
  the unknown index 1 where row 2 of \<open>weights()\<close> holds the token's vector.
\<close>

theorem stoi_index_zero_is_unknown:
  "vocab example_table ! 0 = ''the'' \<and> map_of (priv_stoi example_table) ''the'' = Some 0 \<and>
   stoi example_table ''the'' = 1"
  by (simp add: example_table_eq stoi_def unk_idx_def)

text \<open>
  C1. The claim: \<open>itos(stoi(t)) == t\<close> for every token of the working vocabulary. In the
  code \<open>stoi\<close> adds 2 to the working index and \<open>itos\<close> looks its argument up in \<open>_itos\<close>
  as it is, without taking the 2 off: the token at working index 1 goes to 3, and 3 is
  not a key of a three-token table.
\<close>

theorem itos_stoi_misses_offset:
  "''cat'' \<in> set (vocab example_table) \<and> stoi example_table ''cat'' = 3 \<and>
   itos example_table (stoi example_table ''cat'') = ''UNK''"
  by (simp add: example_table_eq stoi_def itos_def)

text \<open>
  Both defects in general, over a working vocabulary without repetition: \<open>stoi\<close> gives
  the working index plus 2 from index 1 on and the unknown index at index 0, and no token
  other than the string \<open>UNK\<close> itself comes back from \<open>itos (stoi t)\<close>.
\<close>

lemma stoi_present:
  assumes "distinct (vocab lv)" and "k < length (vocab lv)"
  shows "stoi (set_dicts lv) (vocab lv ! k) = (if k = 0 then 1 else int k + 2)"
  using stoi_lookup [OF assms] by (simp add: stoi_def unk_idx_def)

lemma itos_stoi_never_roundtrips:
  assumes "distinct (vocab lv)" and "t \<in> set (vocab lv)" and "t \<noteq> ''UNK''"
  shows "itos (set_dicts lv) (stoi (set_dicts lv) t) \<noteq> t"
proof -
  from assms(2) obtain k where k: "k < length (vocab lv)" "t = vocab lv ! k"
    by (auto simp: in_set_conv_nth)
  define j where "j = (if k = 0 then 1 else int k + 2)"
  have s: "stoi (set_dicts lv) t = j"
    using stoi_present [OF assms(1) k(1)] by (simp add: k j_def)
  have jk: "0 \<le> j" "nat j \<noteq> k"
    by (auto simp: j_def)
  show ?thesis
  proof (cases "nat j < length (vocab lv)")
    case True
    with assms(1) k jk have "vocab lv ! nat j \<noteq> t"
      by (simp add: nth_eq_iff_index_eq)
    with True jk assms(3) show ?thesis
      by (auto simp: s itos_def itos_lookup [OF assms(1)])
  next
    case False
    with assms(3) show ?thesis
      by (auto simp: s itos_def itos_lookup [OF assms(1)])
  qed
qed

section \<open>Properties of clean_token\<close>

lemma str_replace_empty_char: "str_replace_empty [c] s = filter (\<lambda>x. x \<noteq> c) s"
  by (induction s) auto

lemma removed_only_not_normalized:
  assumes "set t \<subseteq> {CHR ''/'', CHR ''%'', CHR ''*''}"
  shows "map_of NORMALIZE_DICT t = None"
proof -
  have "CHR ''.'' \<notin> set t" "CHR ''?'' \<notin> set t" "CHR ''-'' \<notin> set t"
    using assms by auto
  then have "t \<noteq> ''/.''" "t \<noteq> ''/?''" "t \<noteq> ''-LRB-''" "t \<noteq> ''-RRB-''"
    "t \<noteq> ''-LCB-''" "t \<noteq> ''-RCB-''" "t \<noteq> ''-LSB-''" "t \<noteq> ''-RSB-''"
    by auto
  then show ?thesis
    by (simp add: NORMALIZE_DICT_def)
qed

lemma removed_only_stripped:
  assumes "set t \<subseteq> {CHR ''/'', CHR ''%'', CHR ''*''}"
  shows "fold str_replace_empty REMOVED_CHAR t = []"
proof -
  have "\<forall>x\<in>set t. x = CHR ''/'' \<or> x = CHR ''%'' \<or> x = CHR ''*''"
    using assms by auto
  then have "filter (\<lambda>x. x \<noteq> CHR ''*'')
      (filter (\<lambda>x. x \<noteq> CHR ''%'') (filter (\<lambda>x. x \<noteq> CHR ''/'') t)) = []"
    by (induction t) auto
  then show ?thesis
    by (simp add: REMOVED_CHAR_def str_replace_empty_char)
qed

lemma removed_char_iff: "t \<in> set REMOVED_CHAR \<longleftrightarrow> t = ''/'' \<or> t = ''%'' \<or> t = ''*''"
  by (auto simp: REMOVED_CHAR_def)

text \<open>
  C6, as amended. The guard \<open>cleaned_token not in REMOVED_CHAR\<close> exempts the three
  one-character tokens \<open>/\<close>, \<open>%\<close>, \<open>*\<close> and nothing else. Of the tokens made of removed
  characters only, those of length 1 come back unchanged; every other one is stripped to
  the empty string and replaced by the comma.
\<close>

theorem clean_token_removed_only:
  assumes "set t \<subseteq> {CHR ''/'', CHR ''%'', CHR ''*''}"
  shows "clean_token t = (if length t = 1 then t else '','')"
proof (cases "length t = 1")
  case True
  then obtain c where t: "t = [c]"
    by (cases t) auto
  with assms have "t \<in> set REMOVED_CHAR"
    unfolding removed_char_iff by auto
  moreover from True have "t \<noteq> []"
    by auto
  ultimately show ?thesis
    using True by (simp add: clean_token_def removed_only_not_normalized [OF assms])
next
  case False
  then have "t \<notin> set REMOVED_CHAR"
    unfolding removed_char_iff by auto
  with False show ?thesis
    by (simp add: clean_token_def removed_only_not_normalized [OF assms]
        removed_only_stripped [OF assms])
qed

theorem clean_token_removed_only_witness:
  "set ''%'' \<subseteq> {CHR ''/'', CHR ''%'', CHR ''*''} \<and> clean_token ''%'' = ''%'' \<and>
   set ''*/'' \<subseteq> {CHR ''/'', CHR ''%'', CHR ''*''} \<and> clean_token ''*/'' = '',''"
  using clean_token_removed_only [of "''%''"] clean_token_removed_only [of "''*/''"]
  by simp

text \<open>
  The claim as stated fails at the token \<open>//\<close>: it is made of removed characters only,
  and it comes back as the comma.
\<close>

theorem clean_token_double_slash_counterexample:
  "set ''//'' \<subseteq> {CHR ''/'', CHR ''%'', CHR ''*''} \<and> clean_token ''//'' \<noteq> ''//'' \<and>
   clean_token ''//'' = '',''"
  by (simp add: clean_token_def NORMALIZE_DICT_def REMOVED_CHAR_def)

section \<open>Properties of Document.truncate\<close>

lemma sentence_ends_less:
  assumes "k < length (sentence_ends toks)"
  shows "sentence_ends toks ! k < length toks"
proof -
  have "sentence_ends toks ! k \<in> set (sentence_ends toks)"
    using assms by simp
  then show ?thesis
    by (auto simp: sentence_ends_def in_set_enumerate_eq)
qed

lemma py_slice_nth:
  assumes "b \<le> length xs"
  shows "py_slice xs a b = map (\<lambda>k. xs ! k) [a..<b]"
proof -
  have "take b xs = map (\<lambda>k. xs ! k) [0..<b]"
    using assms by (auto simp: list_eq_iff_nth_eq)
  then show ?thesis
    by (simp add: py_slice_def drop_map)
qed

text \<open>
  C8, as amended. With \<open>MAX\<close> or fewer sentence-ending tokens \<open>truncate\<close> returns \<open>self\<close>.
  Otherwise, for a drawn index \<open>i\<close> with \<open>MAX \<le> i < len(sentences)\<close> and \<open>i \<ge> 50\<close>, it
  returns a new document whose tokens are those at the positions from \<open>sentences[i-50]\<close>
  (included) up to \<open>sentences[i]\<close> (excluded: a Python slice leaves its upper bound out),
  with the corefs, speakers and genre of the original.
\<close>

theorem doc_truncate_result:
  "(int (length (sentence_ends (tokens d))) \<le> m \<longrightarrow> doc_truncate d m i = Inr Self) \<and>
   (m < int (length (sentence_ends (tokens d))) \<and> m \<le> i \<and>
    i < int (length (sentence_ends (tokens d))) \<and> 50 \<le> i \<longrightarrow>
      doc_truncate d m i =
        Inr (Fresh \<lparr>tokens = map (\<lambda>k. tokens d ! k)
                       [sentence_ends (tokens d) ! nat (i - 50) ..< sentence_ends (tokens d) ! nat i],
                    corefs = corefs d, speakers = speakers d, genre = genre d\<rparr>))"
proof (intro conjI impI)
  assume "int (length (sentence_ends (tokens d))) \<le> m"
  then show "doc_truncate d m i = Inr Self"
    by (simp add: doc_truncate_def)
next
  let ?S = "sentence_ends (tokens d)"
  assume a: "m < int (length ?S) \<and> m \<le> i \<and> i < int (length ?S) \<and> 50 \<le> i"
  then have "nat (i - 50) < length ?S"
    by linarith
  with a have lo: "py_getitem ?S (i - 50) = Inr (?S ! nat (i - 50))"
    by (simp add: py_getitem_def)
  from a have len: "nat i < length ?S"
    by linarith
  with a have hi: "py_getitem ?S i = Inr (?S ! nat i)"
    by (simp add: py_getitem_def)
  from len have "?S ! nat i \<le> length (tokens d)"
    using sentence_ends_less [of "nat i" "tokens d"] by simp
  then have "py_slice (tokens d) (?S ! nat (i - 50)) (?S ! nat i) =
      map (\<lambda>k. tokens d ! k) [?S ! nat (i - 50) ..< ?S ! nat i]"
    by (rule py_slice_nth)
  with a lo hi show "doc_truncate d m i =
        Inr (Fresh \<lparr>tokens = map (\<lambda>k. tokens d ! k) [?S ! nat (i - 50) ..< ?S ! nat i],
                    corefs = corefs d, speakers = speakers d, genre = genre d\<rparr>)"
    by (simp add: doc_truncate_def Let_def)
qed

lemma long_document_ends: "sentence_ends (tokens long_document) = map (\<lambda>k. 2 * k + 1) [0..<51]"
  by (simp add: long_document_def sentence_ends_def) code_simp


theorem doc_truncate_result_witness:
  "int (length (sentence_ends (tokens long_document))) \<le> 51 \<and>
   doc_truncate long_document 51 60 = Inr Self \<and>
   40 < int (length (sentence_ends (tokens long_document))) \<and> (40::int) \<le> 50 \<and>
   50 < int (length (sentence_ends (tokens long_document))) \<and> (50::int) \<le> 50 \<and>
   doc_truncate long_document 40 50 =
     Inr (Fresh \<lparr>tokens = map (\<lambda>k. tokens long_document ! k) [1..<101],
                 corefs = corefs long_document, speakers = speakers long_document,
                 genre = genre long_document\<rparr>)"
  using doc_truncate_result [of long_document 51 60] doc_truncate_result [of long_document 40 50]
  by (simp add: long_document_ends)

text \<open>
  The claim as stated, with the token at \<open>sentences[i]\<close> included, fails on the document of
  51 sentences at \<open>MAX = 50\<close>, \<open>i = 50\<close>: the code returns the 100 tokens at 1, ..., 100,
  not the 101 tokens at 1, ..., 101.
\<close>

theorem doc_truncate_inclusive_counterexample:
  "doc_truncate long_document 50 50 \<noteq>
     Inr (Fresh \<lparr>tokens = inclusive_slice (tokens long_document)
                            (sentence_ends (tokens long_document) ! 0)
                            (sentence_ends (tokens long_document) ! 50),
                 corefs = corefs long_document, speakers = speakers long_document,
                 genre = genre long_document\<rparr>)"
proof
  assume "doc_truncate long_document 50 50 =
     Inr (Fresh \<lparr>tokens = inclusive_slice (tokens long_document)
                            (sentence_ends (tokens long_document) ! 0)
                            (sentence_ends (tokens long_document) ! 50),
                 corefs = corefs long_document, speakers = speakers long_document,
                 genre = genre long_document\<rparr>)"
  moreover have "doc_truncate long_document 50 50 =
     Inr (Fresh \<lparr>tokens = map (\<lambda>k. tokens long_document ! k) [1..<101],
                 corefs = corefs long_document, speakers = speakers long_document,
                 genre = genre long_document\<rparr>)"
    using doc_truncate_result [of long_document 50 50] by (simp add: long_document_ends)
  ultimately have "inclusive_slice (tokens long_document)
                            (sentence_ends (tokens long_document) ! 0)
                            (sentence_ends (tokens long_document) ! 50) =
      map (\<lambda>k. tokens long_document ! k) [1..<101]"
    by simp
  then have "length (inclusive_slice (tokens long_document)
                            (sentence_ends (tokens long_document) ! 0)
                            (sentence_ends (tokens long_document) ! 50)) =
      length (map (\<lambda>k. tokens long_document ! k) [1..<101])"
    by simp
  then show False
    by (simp add: long_document_ends inclusive_slice_def)
qed

section \<open>Closing a mention\<close>

lemma scan_back_skip:
  assumes "\<forall>j\<in>set js. \<not> (label (cs ! j) = lab \<and> end_idx (cs ! j) = None)"
  shows "scan_back cs lab (js @ ks) i = scan_back cs lab ks (if js = [] then i else Some (last js))"
  using assms by (induction js arbitrary: i) auto

lemma close_mention_last:
  assumes "label m = lab" and "end_idx m = None"
    and "\<forall>x\<in>set post. \<not> (label x = lab \<and> end_idx x = None)"
  shows "close_mention (pre @ m # post) lab idx i =
           Inr (pre @ m\<lparr>end_idx := Some idx\<rparr> # post, Some (length pre))"
proof -
  let ?cs = "pre @ m # post"
  let ?p = "length pre"
  have split: "rev [0..<length ?cs] = rev [Suc ?p..<length ?cs] @ (?p # rev [0..<?p])"
  proof -
    have n: "length ?cs = ?p + Suc (length post)"
      by simp
    have "[0..<?p + Suc (length post)] = [0..<?p] @ [?p..<?p + Suc (length post)]"
      by (rule upt_add_eq_append) simp
    also have "[?p..<?p + Suc (length post)] = ?p # [Suc ?p..<?p + Suc (length post)]"
      by (rule upt_conv_Cons) simp
    finally show ?thesis
      unfolding n by simp
  qed
  have "\<forall>j\<in>set (rev [Suc ?p..<length ?cs]). \<not> (label (?cs ! j) = lab \<and> end_idx (?cs ! j) = None)"
  proof
    fix j
    assume "j \<in> set (rev [Suc ?p..<length ?cs])"
    then have j: "Suc ?p \<le> j" "j < length ?cs"
      by auto
    then have "?cs ! j = post ! (j - Suc ?p)"
      by (simp add: nth_append nth_Cons')
    moreover from j have "j - Suc ?p < length post"
      by auto
    ultimately have "?cs ! j \<in> set post"
      by simp
    with assms(3) show "\<not> (label (?cs ! j) = lab \<and> end_idx (?cs ! j) = None)"
      by blast
  qed
  then have "scan_back ?cs lab (rev [0..<length ?cs]) i =
      scan_back ?cs lab (?p # rev [0..<?p])
        (if rev [Suc ?p..<length ?cs] = [] then i else Some (last (rev [Suc ?p..<length ?cs])))"
    unfolding split by (rule scan_back_skip)
  also have "\<dots> = Some ?p"
    using assms(1,2) by simp
  finally have "scan_back ?cs lab (rev [0..<length ?cs]) i = Some ?p" .
  then show ?thesis
    by (simp add: close_mention_def)
qed

text \<open>
  A whole file with opens of label 7 at tokens 2 and 5 and closes at tokens 6 and 8: the
  mention opened at 5 ends at 6, the one opened at 2 ends at 8.
\<close>

lemma lifo_scenario:
  "load_file Inr example_path
     [conll_record ''a'' ''A'' ''-'', conll_record ''b'' ''A'' ''-'',
      conll_record ''c'' ''A'' ''(7'', conll_record ''d'' ''A'' ''-'',
      conll_record ''e'' ''A'' ''-'', conll_record ''f'' ''A'' ''(7'',
      conll_record ''g'' ''A'' ''7)'', conll_record ''h'' ''A'' ''-'',
      conll_record ''i'' ''A'' ''7)'', [], end_document] =
   Inr [\<lparr>tokens = [''a'', ''b'', ''c'', ''d'', ''e'', ''f'', ''g'', ''h'', ''i''],
         corefs = [\<lparr>label = ''7'', start = 2, end_idx = Some 8, span = None :: unit option\<rparr>,
                   \<lparr>label = ''7'', start = 5, end_idx = Some 6, span = None\<rparr>],
         speakers = replicate 9 ''A'', genre = ''bc''\<rparr>]"
  by code_simp

section \<open>Well-formed files\<close>

lemma close_mention_balanced:
  assumes "lab \<in> set opens" and "mset (open_labels cs) = mset opens"
    and "\<forall>m\<in>set cs. pending_ok idx m"
  shows "\<exists>cs' k. close_mention cs lab idx i = Inr (cs', k) \<and>
           (\<forall>m\<in>set cs'. pending_ok idx m) \<and>
           mset (open_labels cs') = mset (remove1 lab opens)"
proof -
  from assms(1,2) have "lab \<in> set (open_labels cs)"
    by (metis set_mset_mset)
  then have "\<exists>m\<in>set cs. label m = lab \<and> end_idx m = None"
    by (auto simp: open_labels_def)
  then obtain pre m post where cs: "cs = pre @ m # post"
    and m: "label m = lab \<and> end_idx m = None"
    and post: "\<forall>x\<in>set post. \<not> (label x = lab \<and> end_idx x = None)"
    using split_list_last_prop [of cs "\<lambda>x. label x = lab \<and> end_idx x = None"] by blast
  let ?cs' = "pre @ m\<lparr>end_idx := Some idx\<rparr> # post"
  have run: "close_mention cs lab idx i = Inr (?cs', Some (length pre))"
    unfolding cs using m post by (intro close_mention_last) auto
  from assms(3) m have "start m \<le> idx"
    by (auto simp: cs pending_ok_def)
  with assms(3) have ok: "\<forall>x\<in>set ?cs'. pending_ok idx x"
    by (auto simp: cs pending_ok_def)
  have "mset (open_labels cs) = mset (open_labels ?cs') + {#lab#}"
    using m by (simp add: cs open_labels_def)
  with assms(2) have "mset (open_labels ?cs') = mset opens - {#lab#}"
    by (metis add_diff_cancel_right')
  then have "mset (open_labels ?cs') = mset (remove1 lab opens)"
    by simp
  with run ok show ?thesis
    by blast
qed

lemma coref_token_balanced:
  assumes "balance_token token opens = Some opens'"
    and "mset (open_labels cs) = mset opens" and "\<forall>m\<in>set cs. pending_ok idx m"
  shows "\<exists>cs' k. coref_token token idx (cs, i) = Inr (cs', k) \<and>
           (\<forall>m\<in>set cs'. pending_ok idx m) \<and>
           mset (open_labels cs') = mset opens'"
proof -
  from assms(1) obtain g1 lab g3 where rm: "re_match token = Some (g1, lab, g3)"
    by (auto simp: balance_token_def split: option.splits)
  define cs1 where "cs1 = (if g1 = ''(''
      then cs @ [\<lparr>label = lab, start = idx, end_idx = None, span = None\<rparr>] else cs)"
  define opens1 where "opens1 = (if g1 = ''('' then lab # opens else opens)"
  have l1: "mset (open_labels cs1) = mset opens1"
    using assms(2) by (simp add: cs1_def opens1_def open_labels_def)
  have p1: "\<forall>m\<in>set cs1. pending_ok idx m"
    using assms(3) by (auto simp: cs1_def pending_ok_def)
  have ct: "coref_token token idx (cs, i) =
      (if g3 = '')'' then close_mention cs1 lab idx i else Inr (cs1, i))"
    by (simp add: coref_token_def rm cs1_def Let_def)
  show ?thesis
  proof (cases "g3 = '')''")
    case True
    with assms(1) rm have lab: "lab \<in> set opens1" and o': "opens' = remove1 lab opens1"
      by (auto simp: balance_token_def opens1_def Let_def split: if_splits)
    from close_mention_balanced [OF lab l1 p1, of i] True show ?thesis
      unfolding ct o' by simp
  next
    case False
    with assms(1) rm have "opens' = opens1"
      by (auto simp: balance_token_def opens1_def Let_def split: if_splits)
    with False l1 p1 show ?thesis
      unfolding ct by simp
  qed
qed

lemma coref_tokens_balanced:
  assumes "balance_tokens ts opens = Some opens'"
    and "mset (open_labels cs) = mset opens" and "\<forall>m\<in>set cs. pending_ok idx m"
  shows "\<exists>cs' k. coref_tokens ts idx (cs, i) = Inr (cs', k) \<and>
           (\<forall>m\<in>set cs'. pending_ok idx m) \<and>
           mset (open_labels cs') = mset opens'"
  using assms
proof (induction ts arbitrary: opens cs i)
  case Nil
  then show ?case by simp
next
  case (Cons t ts)
  from Cons.prems(1) obtain o1 where o1: "balance_token t opens = Some o1"
    and rest: "balance_tokens ts o1 = Some opens'"
    by (auto split: option.splits)
  from coref_token_balanced [OF o1 Cons.prems(2,3), of i]
  obtain cs1 k1 where step: "coref_token t idx (cs, i) = Inr (cs1, k1)"
    and p1: "\<forall>m\<in>set cs1. pending_ok idx m" and l1: "mset (open_labels cs1) = mset o1"
    by blast
  from Cons.IH [OF rest l1 p1, of k1] step show ?case
    by simp
qed


lemma all_resolved:
  assumes "mset (open_labels cs) = {#}" and "\<forall>m\<in>set cs. pending_ok idx m"
  shows "\<forall>m\<in>set cs. mention_ok m"
proof
  fix m
  assume m: "m \<in> set cs"
  from assms(1) have "filter (\<lambda>m. end_idx m = None) cs = []"
    by (simp add: open_labels_def)
  with m have "end_idx m \<noteq> None"
    by (auto simp: filter_empty_conv)
  with assms(2) m show "mention_ok m"
    by (auto simp: mention_ok_def pending_ok_def split: option.splits)
qed

lemma mention_ok_iff: "mention_ok m \<longleftrightarrow> (\<exists>e. end_idx m = Some e \<and> start m \<le> e)"
  by (cases "end_idx m") (simp_all add: mention_ok_def)

lemma mention_ok_pending: "mention_ok m \<Longrightarrow> pending_ok idx m"
  by (auto simp: mention_ok_def pending_ok_def split: option.splits)

lemma pending_ok_mono: "pending_ok i m \<Longrightarrow> i \<le> j \<Longrightarrow> pending_ok j m"
  by (auto simp: pending_ok_def split: option.splits)

lemma keeps_mentions_ok:
  assumes "keeps_mentions fix" and "fix d = Inr d'" and "document_ok d"
  shows "document_ok d'"
proof -
  let ?f = "\<lambda>m :: 'a coref. (label m, start m, end_idx m)"
  let ?h = "\<lambda>(l :: string, s :: nat, e). case e of None \<Rightarrow> False | Some e' \<Rightarrow> s \<le> e'"
  from assms(1,2) have same: "tokens d' = tokens d" "speakers d' = speakers d"
    "map ?f (corefs d') = map ?f (corefs d)"
    by (auto simp: keeps_mentions_def)
  have ok: "mention_ok m = ?h (?f m)" for m :: "'a coref"
    by (simp add: mention_ok_def)
  have "map mention_ok (corefs d') = map ?h (map ?f (corefs d'))"
    by (simp add: ok)
  also have "\<dots> = map ?h (map ?f (corefs d))"
    by (simp only: same)
  also have "\<dots> = map mention_ok (corefs d)"
    by (simp add: ok)
  finally have "set (map mention_ok (corefs d')) = set (map mention_ok (corefs d))"
    by simp
  with assms(3) have "\<forall>m\<in>set (corefs d'). mention_ok m"
    by (auto simp: document_ok_def)
  with assms(3) same show ?thesis
    by (simp add: document_ok_def)
qed

lemma process_line_ok:
  assumes b: "balance_line cols opens = Some opens'"
    and ok: "state_ok s opens" and km: "keeps_mentions fix"
  shows "case process_line fix g cols s of
           Inl e \<Rightarrow> \<exists>d. fix d = Inl e
         | Inr s' \<Rightarrow> state_ok s' opens'"
proof -
  consider (blank) "length cols = 0" | (boundary) "length cols = 2"
    | (fields) "length cols > 7" | (other) "length cols \<noteq> 0" "length cols \<noteq> 2" "\<not> length cols > 7"
    by linarith
  then show ?thesis
  proof cases
    case blank
    with b have o: "opens = []" "opens' = []"
      by (auto simp: balance_line_def split: if_splits)
    from ok o have res: "\<forall>m\<in>set (l_corefs s). mention_ok m"
      by (intro all_resolved [where idx = "l_index s"]) (auto simp: state_ok_def)
    show ?thesis
    proof (cases "l_text s = []")
      case True
      with blank ok o show ?thesis
        by (simp add: process_line_def)
    next
      case False
      with ok obtain sp where sp: "l_speaker s = Some sp"
        by (auto simp: state_ok_def)
      with blank False ok res o show ?thesis
        by (auto simp: process_line_def state_ok_def open_labels_def)
    qed
  next
    case boundary
    with b have o: "opens = []" "opens' = []"
      by (auto simp: balance_line_def split: if_splits)
    from ok o have res: "\<forall>m\<in>set (l_corefs s). mention_ok m"
      by (intro all_resolved [where idx = "l_index s"]) (auto simp: state_ok_def)
    let ?d = "\<lparr>tokens = l_tokens s, corefs = l_utts_corefs s,
               speakers = l_utts_speakers s, genre = g\<rparr>"
    from ok have dok: "document_ok ?d"
      by (simp add: state_ok_def document_ok_def)
    show ?thesis
    proof (cases "fix ?d")
      case (Inl e)
      with boundary show ?thesis
        by (auto simp: process_line_def)
    next
      case (Inr d')
      from km Inr dok have "document_ok d'"
        by (rule keeps_mentions_ok)
      with boundary Inr ok res o show ?thesis
        by (auto simp: process_line_def state_ok_def mention_ok_pending)
    qed
  next
    case fields
    with b have len: "10 \<le> length cols"
      by (auto simp: balance_line_def split: if_splits)
    from ok have l: "mset (open_labels (l_corefs s)) = mset opens"
      and p: "\<forall>m\<in>set (l_corefs s). pending_ok (l_index s) m"
      by (auto simp: state_ok_def)
    show ?thesis
    proof (cases "last cols = ''-''")
      case True
      with fields len b have "opens' = opens"
        by (auto simp: balance_line_def split: if_splits)
      with True fields len ok show ?thesis
        by (auto simp: process_line_def state_ok_def intro: pending_ok_mono)
    next
      case False
      with fields len b have
        "balance_tokens (split_on (CHR ''|'') (last cols)) opens = Some opens'"
        by (auto simp: balance_line_def split: if_splits)
      from coref_tokens_balanced [OF this l p, of "l_i s"]
      obtain cs' k where run: "coref_tokens (split_on (CHR ''|'') (last cols)) (l_index s)
            (l_corefs s, l_i s) = Inr (cs', k)"
        and p': "\<forall>m\<in>set cs'. pending_ok (l_index s) m"
        and l': "mset (open_labels cs') = mset opens'"
        by blast
      from p' have "\<forall>m\<in>set cs'. pending_ok (Suc (l_index s)) m"
        by (auto intro: pending_ok_mono)
      with False fields len ok run l' show ?thesis
        by (auto simp: process_line_def state_ok_def)
    qed
  next
    case other
    with b have "opens' = opens"
      by (auto simp: balance_line_def split: if_splits)
    with other ok show ?thesis
      by (simp add: process_line_def)
  qed
qed

lemma process_lines_ok:
  assumes "well_formed_from opens lines" and "state_ok s opens" and "keeps_mentions fix"
  shows "case process_lines fix g lines s of
           Inl e \<Rightarrow> \<exists>d. fix d = Inl e
         | Inr s' \<Rightarrow> \<forall>d\<in>set (l_documents s'). document_ok d"
  using assms
proof (induction lines arbitrary: opens s)
  case Nil
  then show ?case
    by (simp add: state_ok_def)
next
  case (Cons cols rest)
  from Cons.prems(1) obtain opens' where b: "balance_line cols opens = Some opens'"
    and wf: "well_formed_from opens' rest"
    by (auto split: option.splits)
  show ?case
  proof (cases "process_line fix g cols s")
    case (Inl e)
    with process_line_ok [OF b Cons.prems(2,3), of g] show ?thesis
      by simp
  next
    case (Inr s')
    with process_line_ok [OF b Cons.prems(2,3), of g] have "state_ok s' opens'"
      by simp
    from Cons.IH [OF wf this Cons.prems(3)] Inr show ?thesis
      by simp
  qed
qed

lemma initial_state_ok: "state_ok initial_state []"
  by (simp add: state_ok_def initial_state_def open_labels_def)

text \<open>
  C5. On a well-formed file, every document \<open>load_file\<close> returns has as many speakers as
  tokens, and each of its mentions has an end index that is not below its start index.
\<close>

theorem load_file_documents_ok:
  assumes "well_formed lines" and "keeps_mentions fix"
    and "load_file fix filename lines = Inr docs"
  shows "\<forall>d\<in>set docs. length (tokens d) = length (speakers d) \<and>
           (\<forall>m\<in>set (corefs d). \<exists>e. end_idx m = Some e \<and> start m \<le> e)"
proof -
  from assms(3) obtain g s where run: "process_lines fix g lines initial_state = Inr s"
    and docs: "docs = l_documents s"
    by (auto simp: load_file_def split: sum.splits)
  from assms(1) have "well_formed_from [] lines"
    by (simp add: well_formed_def)
  from process_lines_ok [OF this initial_state_ok assms(2), of g] run docs
  have "\<forall>d\<in>set docs. document_ok d"
    by simp
  then show ?thesis
    by (simp add: document_ok_def mention_ok_iff)
qed

theorem load_file_documents_ok_witness:
  "well_formed example_lines \<and> keeps_mentions (Inr :: unit document \<Rightarrow> error + unit document) \<and>
   load_file Inr example_path example_lines = Inr example_documents \<and>
   list_all document_ok example_documents"
proof -
  have wf: "well_formed example_lines"
    by code_simp
  have km: "keeps_mentions (Inr :: unit document \<Rightarrow> error + unit document)"
    by (simp add: keeps_mentions_def)
  have run: "load_file Inr example_path example_lines = Inr example_documents"
    by code_simp
  from load_file_documents_ok [OF wf km run] have "list_all document_ok example_documents"
    by (simp add: list_all_iff document_ok_def mention_ok_iff)
  with wf km run show ?thesis
    by (intro conjI)
qed

text \<open>
  On a well-formed file the loop itself never raises: \<open>load_file\<close> can only fail on a path
  with no segment 6, or inside the helper.
\<close>

lemma load_file_well_formed_runs:
  assumes "well_formed lines" and "keeps_mentions fix"
  shows "case load_file fix filename lines of
           Inl e \<Rightarrow> (e = IndexError \<and> length (split_on (CHR ''/'') filename) \<le> 6) \<or>
                     (\<exists>d. fix d = Inl e)
         | Inr docs \<Rightarrow> True"
proof (cases "py_getitem (split_on (CHR ''/'') filename) 6")
  case (Inl e)
  then have "e = IndexError \<and> length (split_on (CHR ''/'') filename) \<le> 6"
    by (auto simp: py_getitem_def split: if_splits)
  with Inl show ?thesis
    by (simp add: load_file_def)
next
  case (Inr g)
  from assms(1) have "well_formed_from [] lines"
    by (simp add: well_formed_def)
  from process_lines_ok [OF this initial_state_ok assms(2), of g] Inr show ?thesis
    by (auto simp: load_file_def split: sum.splits)
qed

section \<open>Close markers without an open mention\<close>

lemma scan_back_no_match:
  assumes "\<forall>j\<in>set js. \<not> (label (cs ! j) = lab \<and> end_idx (cs ! j) = None)"
  shows "scan_back cs lab js i = (if js = [] then i else Some (last js))"
  using scan_back_skip [OF assms, of "[]" i] by simp

lemma close_mention_no_match:
  assumes "\<forall>x\<in>set cs. \<not> (label x = lab \<and> end_idx x = None)"
  shows "close_mention cs lab idx i =
           (if cs = [] then (case i of None \<Rightarrow> Inl UnboundLocalError | Some k \<Rightarrow> Inl IndexError)
            else Inr (cs[0 := (cs ! 0)\<lparr>end_idx := Some idx\<rparr>], Some 0))"
proof -
  have "\<forall>j\<in>set (rev [0..<length cs]). \<not> (label (cs ! j) = lab \<and> end_idx (cs ! j) = None)"
    using assms by simp
  then have sb: "scan_back cs lab (rev [0..<length cs]) i =
      (if rev [0..<length cs] = [] then i else Some (last (rev [0..<length cs])))"
    by (rule scan_back_no_match)
  show ?thesis
  proof (cases cs)
    case Nil
    then show ?thesis
      by (simp add: close_mention_def split: option.splits)
  next
    case (Cons c rest)
    then have "last (rev [0..<length cs]) = 0"
      by (simp add: last_rev upt_conv_Cons)
    with sb Cons show ?thesis
      by (simp add: close_mention_def)
  qed
qed

text \<open>
  C4. The claim: a close marker with no unresolved mention of its label makes the parser
  fail. In the code the scan then ends without a \<open>break\<close>; with a non-empty \<open>corefs\<close> it
  leaves \<open>i = 0\<close>, and \<open>corefs[i]['end'] = index\<close> overwrites the end of the first mention
  of the utterance. Here the close marker of label 2 moves the end of the mention of
  label 1 from token 0 to token 1, and the file loads without an error.
\<close>

theorem unmatched_close_overwrites:
  "load_file Inr example_path
     [conll_record ''John'' ''A'' ''(1)'', conll_record ''left'' ''A'' ''2)'', [], end_document] =
   Inr [\<lparr>tokens = [''John'', ''left''],
         corefs = [\<lparr>label = ''1'', start = 0, end_idx = Some 1, span = None :: unit option\<rparr>],
         speakers = [''A'', ''A''], genre = ''bc''\<rparr>]"
  by code_simp

text \<open>With an empty \<open>corefs\<close> and \<open>i\<close> never bound, the same marker raises UnboundLocalError.\<close>

lemma unmatched_close_first_record:
  "load_file (Inr :: unit document \<Rightarrow> error + unit document) example_path
     [conll_record ''left'' ''A'' ''2)'', [], end_document] = Inl UnboundLocalError"
  by code_simp

section \<open>Utterances\<close>

lemma process_lines_append:
  "process_lines fix g (xs @ ys) s =
     (case process_lines fix g xs s of Inl e \<Rightarrow> Inl e | Inr s' \<Rightarrow> process_lines fix g ys s')"
  by (induction xs arbitrary: s) (auto split: sum.splits)

lemma process_token_record:
  assumes "7 < length cols" and "process_line fix g cols s = Inr s'"
  shows "l_text s' = l_text s @ [clean_token (cols ! 3)] \<and> l_speaker s' = Some (cols ! 9) \<and>
         l_tokens s' = l_tokens s \<and> l_utts_speakers s' = l_utts_speakers s \<and>
         l_utts_corefs s' = l_utts_corefs s \<and> l_documents s' = l_documents s \<and>
         l_index s' = Suc (l_index s)"
  using assms by (auto simp: process_line_def split: if_splits sum.splits)

lemma process_token_records:
  assumes "\<forall>cols\<in>set recs. 7 < length cols" and "process_lines fix g recs s = Inr s'"
  shows "l_text s' = l_text s @ map (\<lambda>cols. clean_token (cols ! 3)) recs \<and>
         l_tokens s' = l_tokens s \<and> l_utts_speakers s' = l_utts_speakers s \<and>
         l_utts_corefs s' = l_utts_corefs s \<and> l_documents s' = l_documents s \<and>
         l_index s' = l_index s + length recs \<and>
         (recs \<noteq> [] \<longrightarrow> l_speaker s' = Some (last recs ! 9))"
  using assms
proof (induction recs arbitrary: s)
  case Nil
  then show ?case by simp
next
  case (Cons cols recs)
  from Cons.prems(2) obtain s1 where one: "process_line fix g cols s = Inr s1"
    and rest: "process_lines fix g recs s1 = Inr s'"
    by (auto split: sum.splits)
  from Cons.prems(1) have "7 < length cols"
    by simp
  note r1 = process_token_record [OF this one]
  from Cons.prems(1) have "\<forall>cols\<in>set recs. 7 < length cols"
    by simp
  note r2 = Cons.IH [OF this rest]
  show ?case
  proof (cases "recs = []")
    case True
    with rest have "s' = s1" by simp
    with True r1 show ?thesis by simp
  next
    case False
    with r1 r2 show ?thesis by simp
  qed
qed

text \<open>
  C9. A run of token records followed by a blank line: when the loop gets through it,
  the speakers appended are the field 9 of the last record, once for every token of the
  text gathered (the tokens of the run, after those \<open>text\<close> already held), and the
  speaker fields of the earlier records are gone.
\<close>

theorem utterance_speaker_of_last_record:
  assumes "recs \<noteq> []" and "\<forall>cols\<in>set recs. 7 < length cols"
    and "process_lines fix g (recs @ [[]]) s = Inr s'"
  shows "l_utts_speakers s' =
           l_utts_speakers s @ replicate (length (l_text s) + length recs) (last recs ! 9) \<and>
         l_tokens s' = l_tokens s @ l_text s @ map (\<lambda>cols. clean_token (cols ! 3)) recs"
proof -
  from assms(3) obtain s1 where recs: "process_lines fix g recs s = Inr s1"
    and blank: "process_line fix g [] s1 = Inr s'"
    by (auto simp: process_lines_append split: sum.splits)
  note r = process_token_records [OF assms(2) recs]
  with assms(1) have "l_text s1 \<noteq> []" "l_speaker s1 = Some (last recs ! 9)"
    by auto
  with blank r show ?thesis
    by (auto simp: process_line_def)
qed

theorem utterance_speaker_of_last_record_witness:
  "process_lines Inr ''bc''
     ([conll_record ''Hello'' ''Ann'' ''-'', conll_record ''there'' ''Bob'' ''-''] @ [[]])
     (initial_state :: unit loader_state) =
     Inr (initial_state\<lparr>l_tokens := [''Hello'', ''there''], l_utts_speakers := [''Bob'', ''Bob''],
            l_index := 2, l_speaker := Some ''Bob''\<rparr>) \<and>
   last [conll_record ''Hello'' ''Ann'' ''-'', conll_record ''there'' ''Bob'' ''-''] ! 9 = ''Bob'' \<and>
   l_utts_speakers (initial_state\<lparr>l_tokens := [''Hello'', ''there''],
       l_utts_speakers := [''Bob'', ''Bob''], l_index := 2, l_speaker := Some ''Bob''\<rparr>
       :: unit loader_state) = [''Bob'', ''Bob'']"
proof -
  let ?recs = "[conll_record ''Hello'' ''Ann'' ''-'', conll_record ''there'' ''Bob'' ''-'']"
  let ?s' = "initial_state\<lparr>l_tokens := [''Hello'', ''there''],
       l_utts_speakers := [''Bob'', ''Bob''], l_index := 2, l_speaker := Some ''Bob''\<rparr>
       :: unit loader_state"
  have a: "?recs \<noteq> []"
    by simp
  have b: "\<forall>cols\<in>set ?recs. 7 < length cols"
    by (simp add: conll_record_def)
  have c: "process_lines Inr ''bc'' (?recs @ [[]]) (initial_state :: unit loader_state) = Inr ?s'"
    by code_simp
  have d: "last ?recs ! 9 = ''Bob''"
    by (simp add: conll_record_def)
  from utterance_speaker_of_last_record [OF a b c]
  have e: "l_utts_speakers ?s' = l_utts_speakers (initial_state :: unit loader_state) @
      replicate (length (l_text (initial_state :: unit loader_state)) + length ?recs) (last ?recs ! 9)"
    by (rule conjunct1)
  have f: "l_utts_speakers ?s' = [''Bob'', ''Bob'']"
    using e by simp
  from c d f show ?thesis
    by (intro conjI)
qed

section \<open>Document boundaries\<close>

text \<open>
  A two-field line builds the document from \<open>tokens\<close>, \<open>utts_corefs\<close> and
  \<open>utts_speakers\<close> alone and empties \<open>text\<close>; \<open>corefs\<close> is not among the variables it
  resets.
\<close>

lemma boundary_ignores_pending:
  assumes "length cols = 2"
  shows "process_line fix g cols s =
     (case fix \<lparr>tokens = l_tokens s, corefs = l_utts_corefs s,
                speakers = l_utts_speakers s, genre = g\<rparr> of
        Inl e \<Rightarrow> Inl e
      | Inr doc \<Rightarrow>
          Inr \<lparr>l_documents = l_documents s @ [doc], l_tokens = [], l_text = [],
               l_utts_corefs = [], l_utts_speakers = [], l_corefs = l_corefs s, l_index = 0,
               l_speaker = l_speaker s, l_i = l_i s\<rparr>)"
  using assms by (cases s) (simp add: process_line_def split: sum.splits)

text \<open>
  C10. The claim: the tokens and the coreference records of an utterance still pending
  at a two-field line are discarded. The tokens are; the records stay in \<open>corefs\<close> and
  go into the next document at its first utterance end. Here the mention of \<open>John\<close>,
  token 2 of the first document, comes out in the second document, which has one token.
\<close>

theorem pending_corefs_leak:
  "load_file Inr example_path
     [conll_record ''Hi'' ''A'' ''-'', conll_record ''.'' ''A'' ''-'', [],
      conll_record ''John'' ''B'' ''(1)'',
      end_document,
      conll_record ''Bye'' ''C'' ''-'', [],
      end_document] =
   Inr [\<lparr>tokens = [''Hi'', ''.''], corefs = [], speakers = [''A'', ''A''], genre = ''bc''\<rparr>,
        \<lparr>tokens = [''Bye''],
         corefs = [\<lparr>label = ''1'', start = 2, end_idx = Some 2, span = None :: unit option\<rparr>],
         speakers = [''C''], genre = ''bc''\<rparr>]"
  by code_simp

section \<open>Two mentions of one label, open together\<close>














text \<open>
  The records must be of one utterance: \<open>corefs\<close> is emptied at a blank line, so with a
  blank line after token 5 the close marker at token 6 finds nothing to scan.
\<close>

lemma cross_utterance_close:
  "load_file (Inr :: unit document \<Rightarrow> error + unit document) example_path
     [conll_record ''a'' ''A'' ''-'', conll_record ''b'' ''A'' ''-'',
      conll_record ''c'' ''A'' ''(7'', conll_record ''d'' ''A'' ''-'',
      conll_record ''e'' ''A'' ''-'', conll_record ''f'' ''A'' ''(7'', [],
      conll_record ''g'' ''A'' ''7)'', conll_record ''h'' ''A'' ''-'',
      conll_record ''i'' ''A'' ''7)'', [], end_document] = Inl UnboundLocalError"
  by code_simp

end
